theory Spec2Isabelle
  imports Main
begin

section \<open>Text as Python handles it\<close>

text \<open>
  A Python \<open>str\<close> is modelled as a \<open>string\<close>; a \<open>char\<close> stands for one code point
  below 256. The scripts open every file in text mode with the default \<open>newline=None\<close>,
  so what a file holds and what the program reads differ in the line endings: reading
  turns \<open>CR LF\<close> and a lone \<open>CR\<close> into \<open>LF\<close>. Writing is modelled as on POSIX, where
  \<open>LF\<close> is written as it is.
\<close>

abbreviation LF :: char where
  "LF \<equiv> CHR 0x0A"

abbreviation CR :: char where
  "CR \<equiv> CHR 0x0D"

abbreviation BACKSLASH :: char where
  "BACKSLASH \<equiv> CHR 0x5C"

abbreviation escaped_newline :: string where
  "escaped_newline \<equiv> [BACKSLASH, CHR ''n'']"

text \<open>The code points below 256 for which \<open>str.isspace\<close> holds.\<close>

definition is_space :: "char \<Rightarrow> bool" where
  "is_space c =
     (c \<in> set [CHR 0x09, CHR 0x0A, CHR 0x0B, CHR 0x0C, CHR 0x0D, CHR 0x1C, CHR 0x1D,
               CHR 0x1E, CHR 0x1F, CHR 0x20, CHR 0x85, CHR 0xA0])"

text \<open>Universal newlines: what \<open>open(path, 'r')\<close> hands to the program.\<close>

fun universal_newlines :: "string \<Rightarrow> string" where
  "universal_newlines [] = []"
| "universal_newlines [c] = (if c = CR then [LF] else [c])"
| "universal_newlines (c # d # cs) =
     (if c = CR \<and> d = LF then LF # universal_newlines cs
      else if c = CR then LF # universal_newlines (d # cs)
      else c # universal_newlines (d # cs))"

text \<open>
  \<open>for line in f\<close>: the text cut after each \<open>LF\<close>, every line keeping its \<open>LF\<close>;
  a last line without one is yielded too.
\<close>

fun file_lines :: "string \<Rightarrow> string list" where
  "file_lines [] = []"
| "file_lines (c # cs) =
     (if c = LF then [c] # file_lines cs
      else (case file_lines cs of [] \<Rightarrow> [[c]] | l # ls \<Rightarrow> (c # l) # ls))"

definition read_lines :: "string \<Rightarrow> string list" where
  "read_lines content = file_lines (universal_newlines content)"

text \<open>\<open>s.rstrip(chars)\<close>, \<open>s.strip()\<close>, \<open>s.startswith(p)\<close>.\<close>

definition rstrip :: "string \<Rightarrow> string \<Rightarrow> string" where
  "rstrip s chars = rev (dropWhile (\<lambda>c. c \<in> set chars) (rev s))"

definition strip :: "string \<Rightarrow> string" where
  "strip s = rev (dropWhile is_space (rev (dropWhile is_space s)))"

definition startswith :: "string \<Rightarrow> string \<Rightarrow> bool" where
  "startswith s p = (take (length p) s = p)"

text \<open>
  \<open>s.split()\<close>: the maximal runs of characters that are not whitespace, in order.
  \<open>split_scan\<close> carries the token being read.
\<close>

fun split_scan :: "string \<Rightarrow> string \<Rightarrow> string list" where
  "split_scan [] tok = (if tok = [] then [] else [tok])"
| "split_scan (c # cs) tok =
     (if is_space c then (if tok = [] then split_scan cs [] else tok # split_scan cs [])
      else split_scan cs (tok @ [c]))"

definition split :: "string \<Rightarrow> string list" where
  "split s = split_scan s []"

text \<open>
  \<open>s.replace(old, new)\<close>: the occurrences of \<open>old\<close> are found from the left and do not
  overlap. With an empty \<open>old\<close>, Python puts \<open>new\<close> before every character and at the end.
\<close>

fun replace_scan :: "string \<Rightarrow> string \<Rightarrow> string \<Rightarrow> string" where
  "replace_scan [] old new = []"
| "replace_scan (c # cs) old new =
     (if startswith (c # cs) old
      then new @ replace_scan (drop (length old - 1) cs) old new
      else c # replace_scan cs old new)"

definition replace :: "string \<Rightarrow> string \<Rightarrow> string \<Rightarrow> string" where
  "replace s old new =
     (if old = [] then new @ concat (map (\<lambda>c. c # new) s) else replace_scan s old new)"

text \<open>\<open>str(n)\<close> for a number that is not negative, as an f-string prints it.\<close>

fun str_nat :: "nat \<Rightarrow> string" where
  "str_nat n =
     (if n < 10 then [''0123456789'' ! n]
      else str_nat (n div 10) @ [''0123456789'' ! (n mod 10)])"

section \<open>Files\<close>

text \<open>
  The part of the file system the scripts touch: the text of each file that can be opened
  for reading, the paths that cannot be opened for writing, and the two standard streams.
\<close>

record world =
  files :: "string \<rightharpoonup> string"
  unwritable :: "string set"
  stdout :: string
  stderr :: string

datatype error = IOError string | SystemExit nat

section \<open>remove\_acc.py\<close>

subsection \<open>read\_accessions\_to\_remove\<close>

text \<open>The body of the loop over the lines of the accession file.\<close>

definition add_accession :: "string set \<Rightarrow> string \<Rightarrow> string set" where
  "add_accession accessions raw =
     (let line = strip raw
      in if line \<noteq> [] \<and> \<not> startswith line ''#'' then insert line accessions
         else accessions)"

definition read_accessions_to_remove :: "world \<Rightarrow> string \<Rightarrow> error + string set" where
  "read_accessions_to_remove w accession_file =
     (case files w accession_file of
        None \<Rightarrow> Inl (IOError accession_file)
      | Some content \<Rightarrow> Inr (foldl add_accession {} (read_lines content)))"

subsection \<open>process\_fasta\<close>

text \<open>
  The local variables of \<open>process_fasta\<close>; \<open>out_file\<close> is the text written to the output
  so far. The counters only grow from zero, so they are natural numbers.
\<close>

record filter_state =
  removed_count :: nat
  kept_count :: nat
  current_header :: "string option"
  current_sequence :: "string list"
  skip_current :: bool
  out_file :: string

definition initial_state :: filter_state where
  "initial_state =
     \<lparr>removed_count = 0, kept_count = 0, current_header = None, current_sequence = [],
      skip_current = False, out_file = []\<rparr>"

definition write_sequence :: "string \<Rightarrow> string list \<Rightarrow> string \<Rightarrow> string" where
  "write_sequence header sequence out = out @ header @ [LF] @ concat sequence @ [LF]"

text \<open>
  \<open>Process previous sequence if exists\<close>: the block that stands before a new header is
  taken and, once more, after the loop.
\<close>

definition process_previous :: "filter_state \<Rightarrow> filter_state" where
  "process_previous s =
     (case current_header s of
        None \<Rightarrow> s
      | Some header \<Rightarrow>
          if \<not> skip_current s
          then s\<lparr>out_file := write_sequence header (current_sequence s) (out_file s),
                 kept_count := kept_count s + 1\<rparr>
          else s\<lparr>removed_count := removed_count s + 1\<rparr>)"

text \<open>\<open>parts[0][1:] if len(parts) > 0 and len(parts[0]) > 1 else ''\<close>\<close>

definition accession_of :: "string \<Rightarrow> string" where
  "accession_of line =
     (case split line of
        [] \<Rightarrow> []
      | p # _ \<Rightarrow> if 1 < length p then drop 1 p else [])"

text \<open>The body of the loop over the lines of the input.\<close>

definition fasta_line :: "string set \<Rightarrow> filter_state \<Rightarrow> string \<Rightarrow> filter_state" where
  "fasta_line accessions_to_remove s raw =
     (let line = rstrip raw [LF, CR]
      in if startswith line ''>''
         then (process_previous s)
                \<lparr>current_header := Some line, current_sequence := [],
                 skip_current := accession_of line \<in> accessions_to_remove\<rparr>
         else if current_header s \<noteq> None
         then s\<lparr>current_sequence := current_sequence s @ [line]\<rparr>
         else s)"

text \<open>The loop and the block after it, run on the text of the input file.\<close>

definition filter_lines :: "string set \<Rightarrow> string list \<Rightarrow> filter_state" where
  "filter_lines accessions_to_remove ls =
     process_previous (foldl (fasta_line accessions_to_remove) initial_state ls)"

definition filter_text :: "string set \<Rightarrow> string \<Rightarrow> filter_state" where
  "filter_text accessions_to_remove content =
     filter_lines accessions_to_remove (read_lines content)"

definition summary :: "filter_state \<Rightarrow> string" where
  "summary s =
     ''Kept '' @ str_nat (kept_count s) @ '' sequences, removed ''
       @ str_nat (removed_count s) @ '' sequences''"

text \<open>
  \<open>Determine output file\<close>: \<open>None\<close> and \<open>'-'\<close> stand for the standard output; any other
  path is opened for writing, which empties the file. This happens before the input is
  opened.
\<close>

definition open_output :: "world \<Rightarrow> string option \<Rightarrow> error + world" where
  "open_output w output_fasta =
     (case output_fasta of
        None \<Rightarrow> Inr w
      | Some path \<Rightarrow>
          if path = ''-'' then Inr w
          else if path \<in> unwritable w then Inl (IOError path)
          else Inr (w\<lparr>files := (files w)(path \<mapsto> [])\<rparr>))"

definition deliver :: "world \<Rightarrow> string option \<Rightarrow> string \<Rightarrow> world" where
  "deliver w output_fasta written =
     (case output_fasta of
        None \<Rightarrow> w\<lparr>stdout := stdout w @ written\<rparr>
      | Some path \<Rightarrow>
          if path = ''-'' then w\<lparr>stdout := stdout w @ written\<rparr>
          else w\<lparr>files := (files w)(path \<mapsto> written)\<rparr>)"

text \<open>
  A run of \<open>process_fasta\<close>: an error when a file cannot be opened, else the final values
  of the local variables and the world the run leaves, the summary printed to the
  standard error stream.
\<close>

definition process_fasta ::
  "world \<Rightarrow> string \<Rightarrow> string option \<Rightarrow> string set \<Rightarrow> error + (filter_state \<times> world)" where
  "process_fasta w input_fasta output_fasta accessions_to_remove =
     (case open_output w output_fasta of
        Inl e \<Rightarrow> Inl e
      | Inr w1 \<Rightarrow>
          (case files w1 input_fasta of
             None \<Rightarrow> Inl (IOError input_fasta)
           | Some content \<Rightarrow>
               let s = filter_text accessions_to_remove content;
                   w2 = deliver w1 output_fasta (out_file s)
               in Inr (s, w2\<lparr>stderr := stderr w2 @ summary s @ [LF]\<rparr>)))"

section \<open>kaiju\_nr\_prepare.py\<close>

subsection \<open>convert\_literal\_newlines\<close>

text \<open>
  Any exception inside the \<open>try\<close> ends the program with \<open>sys.exit(1)\<close>.
\<close>

definition convert_literal_newlines :: "world \<Rightarrow> string \<Rightarrow> string \<Rightarrow> error + world" where
  "convert_literal_newlines w input_file output_file =
     (case files w input_file of
        None \<Rightarrow> Inl (SystemExit 1)
      | Some raw \<Rightarrow>
          let content = universal_newlines raw;
              content = replace content escaped_newline [LF]
          in if output_file \<in> unwritable w then Inl (SystemExit 1)
             else Inr (w\<lparr>files := (files w)(output_file \<mapsto> content),
                         stderr := stderr w @ ''Converted literal newlines: '' @ input_file
                                   @ '' -> '' @ output_file @ [LF]\<rparr>))"

section \<open>Records, as the specification describes them\<close>

text \<open>
  The specification's reading of an input, written from its words and kept apart from
  the code above: a record is a header line with the lines that follow it up to the next
  header line or the end of the input; lines before the first header belong to no record.
  The lines are taken with their line endings stripped.
\<close>

record sequence_record =
  header :: string
  sequence_lines :: "string list"

fun spec_records :: "string list \<Rightarrow> sequence_record list" where
  "spec_records [] = []"
| "spec_records (l # ls) =
     (if startswith l ''>''
      then \<lparr>header = l, sequence_lines = takeWhile (\<lambda>x. \<not> startswith x ''>'') ls\<rparr>
             # spec_records ls
      else spec_records ls)"

definition spec_kept :: "string set \<Rightarrow> sequence_record \<Rightarrow> bool" where
  "spec_kept exclusion r = (accession_of (header r) \<notin> exclusion)"

definition spec_written :: "sequence_record \<Rightarrow> string" where
  "spec_written r = header r @ [LF] @ concat (sequence_lines r) @ [LF]"

text \<open>A line as the loop of \<open>process_fasta\<close> takes it: \<open>line.rstrip('\n\r')\<close>.\<close>

definition chomp :: "string \<Rightarrow> string" where
  "chomp raw = rstrip raw [LF, CR]"

text \<open>
  The records still to be finished when the loop stands in state \<open>s\<close> before the stripped
  lines \<open>ls\<close>, each with the verdict the code will reach: the record under construction,
  which takes the lines up to the next header, then the records of \<open>ls\<close>.
\<close>

definition pending ::
  "string set \<Rightarrow> filter_state \<Rightarrow> string list \<Rightarrow> (bool \<times> sequence_record) list" where
  "pending S s ls =
     (case current_header s of
        None \<Rightarrow> []
      | Some h \<Rightarrow>
          [(\<not> skip_current s,
            \<lparr>header = h,
             sequence_lines = current_sequence s @ takeWhile (\<lambda>x. \<not> startswith x ''>'') ls\<rparr>)])
     @ map (\<lambda>r. (spec_kept S r, r)) (spec_records ls)"

text \<open>
  The first token of a line, in the specification's words: the first run of characters
  that are not whitespace, the empty text when the line has none.
\<close>

definition spec_first_token :: "string \<Rightarrow> string" where
  "spec_first_token line = takeWhile (\<lambda>c. \<not> is_space c) (dropWhile is_space line)"

text \<open>A record whose header has a first token of at most one character.\<close>

definition short_token :: "sequence_record \<Rightarrow> bool" where
  "short_token r = (length (spec_first_token (header r)) \<le> 1)"

text \<open>A line of the accession file that the loader takes into the set.\<close>

definition listed :: "string \<Rightarrow> bool" where
  "listed raw = (strip raw \<noteq> [] \<and> \<not> startswith (strip raw) ''#'')"

text \<open>
  Auxiliary notions for the proofs: a text without line-ending characters; a record as one
  read from a file, whose header is a header line and whose sequence lines are not, none
  of them holding a line ending; a record with its sequence joined into one line.
\<close>

definition plain :: "string \<Rightarrow> bool" where
  "plain s = (LF \<notin> set s \<and> CR \<notin> set s)"

definition tidy :: "sequence_record \<Rightarrow> bool" where
  "tidy r = (startswith (header r) ''>'' \<and> plain (header r)
     \<and> list_all (\<lambda>l. \<not> startswith l ''>'' \<and> plain l) (sequence_lines r))"

definition unwrapped :: "sequence_record \<Rightarrow> sequence_record" where
  "unwrapped r = \<lparr>header = header r, sequence_lines = [concat (sequence_lines r)]\<rparr>"

section \<open>The loop of process\_fasta against the records\<close>

lemma initial_fields:
  "out_file initial_state = []" "kept_count initial_state = 0"
  "removed_count initial_state = 0" "current_header initial_state = None"
  by (simp_all add: initial_state_def)

lemma loop_general:
  "out_file (process_previous (foldl (fasta_line S) s ls)) =
     out_file s @ concat (map (spec_written \<circ> snd) (filter fst (pending S s (map chomp ls))))
   \<and> kept_count (process_previous (foldl (fasta_line S) s ls)) =
     kept_count s + length (filter fst (pending S s (map chomp ls)))
   \<and> removed_count (process_previous (foldl (fasta_line S) s ls)) =
     removed_count s + length (filter (\<lambda>p. \<not> fst p) (pending S s (map chomp ls)))"
proof (induction ls arbitrary: s)
  case Nil
  show ?case
    by (simp add: pending_def process_previous_def write_sequence_def spec_written_def
          split: option.split)
next
  case (Cons l ls)
  show ?case
  proof (cases "startswith (chomp l) ''>''")
    case True
    then show ?thesis
      using Cons.IH [of "fasta_line S s l"]
      by (simp add: pending_def fasta_line_def chomp_def process_previous_def
            write_sequence_def spec_written_def spec_kept_def split: option.split)
  next
    case False
    then show ?thesis
      using Cons.IH [of "fasta_line S s l"]
      by (simp add: pending_def fasta_line_def chomp_def split: option.split)
  qed
qed

lemma pending_initial:
  "pending S initial_state ls = map (\<lambda>r. (spec_kept S r, r)) (spec_records ls)"
  by (simp add: pending_def initial_state_def)

lemma filter_fst_tagged:
  "filter fst (map (\<lambda>r. (P r, r)) rs) = map (\<lambda>r. (P r, r)) (filter P rs)"
  by (induction rs) auto

lemma filter_not_fst_tagged:
  "filter (\<lambda>p. \<not> fst p) (map (\<lambda>r. (P r, r)) rs) =
     map (\<lambda>r. (P r, r)) (filter (\<lambda>r. \<not> P r) rs)"
  by (induction rs) auto

lemma filter_lines_out:
  "out_file (filter_lines S ls) =
     concat (map spec_written (filter (spec_kept S) (spec_records (map chomp ls))))"
  using loop_general [of S initial_state ls]
  by (simp add: filter_lines_def pending_initial filter_fst_tagged comp_def initial_fields)

lemma filter_lines_kept:
  "kept_count (filter_lines S ls) =
     length (filter (spec_kept S) (spec_records (map chomp ls)))"
  using loop_general [of S initial_state ls]
  by (simp add: filter_lines_def pending_initial filter_fst_tagged initial_fields)

lemma filter_lines_removed:
  "removed_count (filter_lines S ls) =
     length (filter (\<lambda>r. \<not> spec_kept S r) (spec_records (map chomp ls)))"
  using loop_general [of S initial_state ls]
  by (simp add: filter_lines_def pending_initial filter_not_fst_tagged initial_fields)

lemma spec_records_skip:
  "list_all (\<lambda>l. \<not> startswith l ''>'') pre \<Longrightarrow> spec_records (pre @ ls) = spec_records ls"
  by (induction pre) auto

lemma foldl_skip:
  "current_header s = None \<Longrightarrow> list_all (\<lambda>l. \<not> startswith (chomp l) ''>'') pre \<Longrightarrow>
   foldl (fasta_line S) s pre = s"
  by (induction pre) (auto simp: fasta_line_def chomp_def)

lemma length_spec_records:
  "length (spec_records ls) = length (filter (\<lambda>l. startswith l ''>'') ls)"
  by (induction ls) auto

text \<open>
  \<open>spec_records\<close> reads back what it should: an input made of lines without a header
  followed by records laid out line by line has exactly those records.
\<close>

lemma spec_records_flatten:
  "list_all (\<lambda>l. \<not> startswith l ''>'') pre \<Longrightarrow>
   list_all (\<lambda>r. startswith (header r) ''>''
              \<and> list_all (\<lambda>l. \<not> startswith l ''>'') (sequence_lines r)) rs \<Longrightarrow>
   spec_records (pre @ concat (map (\<lambda>r. header r # sequence_lines r) rs)) = rs"
proof (induction rs arbitrary: pre)
  case Nil
  then show ?case using spec_records_skip [of pre "[]"] by simp
next
  case (Cons r rs)
  let ?rest = "concat (map (\<lambda>r. header r # sequence_lines r) rs)"
  have nh: "list_all (\<lambda>l. \<not> startswith l ''>'') (sequence_lines r)"
    using Cons.prems(2) by simp
  have tw: "takeWhile (\<lambda>x. \<not> startswith x ''>'') (sequence_lines r @ ?rest) = sequence_lines r"
  proof (cases rs)
    case Nil
    then show ?thesis using nh by (simp add: list_all_iff)
  next
    case (Cons r' rs')
    then show ?thesis using nh Cons.prems(2)
      by (simp add: takeWhile_append2 list_all_iff takeWhile_tail)
  qed
  have "spec_records (pre @ concat (map (\<lambda>r. header r # sequence_lines r) (r # rs)))
        = spec_records (header r # sequence_lines r @ ?rest)"
    using spec_records_skip [OF Cons.prems(1)] by simp
  also have "\<dots> = r # spec_records (sequence_lines r @ ?rest)"
    using Cons.prems(2) tw by simp
  also have "\<dots> = r # rs"
    using Cons.IH [OF nh] Cons.prems(2) by simp
  finally show ?case .
qed

section \<open>Lines of a text file\<close>

lemma universal_newlines_no_CR: "CR \<notin> set (universal_newlines s)"
  by (induction s rule: universal_newlines.induct) auto

lemma universal_newlines_id: "CR \<notin> set s \<Longrightarrow> universal_newlines s = s"
  by (induction s rule: universal_newlines.induct) auto

lemma file_lines_shape:
  "l \<in> set (file_lines s) \<Longrightarrow> l \<noteq> [] \<and> LF \<notin> set (butlast l) \<and> set l \<subseteq> set s"
proof (induction s arbitrary: l)
  case Nil
  then show ?case by simp
next
  case (Cons c cs)
  show ?case
  proof (cases "c = LF")
    case True
    then show ?thesis using Cons by auto
  next
    case False
    show ?thesis
    proof (cases "file_lines cs")
      case Nil
      then show ?thesis using Cons.prems False by auto
    next
      case (Cons k ks)
      then have k: "k \<noteq> [] \<and> LF \<notin> set (butlast k) \<and> set k \<subseteq> set cs"
        using Cons.IH [of k] by simp
      from Cons Cons.prems False have "l = c # k \<or> l \<in> set ks" by auto
      then show ?thesis
      proof
        assume "l = c # k"
        then show ?thesis using k False by auto
      next
        assume "l \<in> set ks"
        then show ?thesis using Cons.IH [of l] Cons by auto
      qed
    qed
  qed
qed

lemma dropWhile_none: "\<forall>c\<in>set ys. \<not> P c \<Longrightarrow> dropWhile P ys = ys"
  by (cases ys) auto

lemma chomp_plain:
  assumes "LF \<notin> set (butlast l)" "CR \<notin> set l"
  shows "plain (chomp l)"
proof (cases l rule: rev_cases)
  case Nil
  then show ?thesis by (simp add: chomp_def rstrip_def plain_def)
next
  case (snoc xs x)
  have xs: "LF \<notin> set xs" "CR \<notin> set xs" using assms snoc by auto
  have keep: "dropWhile (\<lambda>c. c \<in> set [LF, CR]) (rev xs) = rev xs"
    using xs by (intro dropWhile_none) auto
  show ?thesis
  proof (cases "x = LF")
    case True
    then show ?thesis using snoc keep xs by (simp add: chomp_def rstrip_def plain_def)
  next
    case False
    then show ?thesis using snoc xs assms by (simp add: chomp_def rstrip_def plain_def)
  qed
qed

lemma read_lines_plain: "list_all plain (map chomp (read_lines c))"
proof -
  have "plain (chomp l)" if "l \<in> set (read_lines c)" for l
  proof -
    from that have "LF \<notin> set (butlast l)" "set l \<subseteq> set (universal_newlines c)"
      using file_lines_shape [of l "universal_newlines c"] by (simp_all add: read_lines_def)
    then show ?thesis using chomp_plain [of l] universal_newlines_no_CR [of c] by auto
  qed
  then show ?thesis by (simp add: list_all_iff)
qed

lemma chomp_line: "plain x \<Longrightarrow> chomp (x @ [LF]) = x"
proof -
  assume "plain x"
  then have "dropWhile (\<lambda>c. c \<in> set [LF, CR]) (rev x) = rev x"
    by (intro dropWhile_none) (auto simp: plain_def)
  then show ?thesis by (simp add: chomp_def rstrip_def)
qed

lemma file_lines_line: "LF \<notin> set x \<Longrightarrow> file_lines (x @ LF # rest) = (x @ [LF]) # file_lines rest"
  by (induction x) auto

section \<open>The text the filter writes, read again\<close>

lemma spec_records_tidy: "list_all plain ls \<Longrightarrow> list_all tidy (spec_records ls)"
proof (induction ls)
  case Nil
  then show ?case by simp
next
  case (Cons l ls)
  have "list_all (\<lambda>x. \<not> startswith x ''>'' \<and> plain x) (takeWhile (\<lambda>x. \<not> startswith x ''>'') ls)"
    using Cons.prems by (auto simp: list_all_iff dest: set_takeWhileD)
  then show ?case using Cons by (simp add: tidy_def)
qed

lemma startswith_char_Nil: "\<not> startswith [] [c]"
  by (simp add: startswith_def)

lemma startswith_char_Cons: "startswith (x # xs) [c] = (x = c)"
  by (simp add: startswith_def)

lemma concat_plain: "list_all (\<lambda>l. \<not> startswith l ''>'' \<and> plain l) ls \<Longrightarrow>
   plain (concat ls) \<and> \<not> startswith (concat ls) ''>''"
proof (induction ls)
  case Nil
  show ?case by (simp add: plain_def startswith_char_Nil)
next
  case (Cons l ls)
  have IH: "plain (concat ls) \<and> \<not> startswith (concat ls) ''>''"
    using Cons.IH Cons.prems by simp
  have l: "\<not> startswith l ''>''" "plain l"
    using Cons.prems by simp_all
  show ?case
  proof (cases l)
    case Nil
    then show ?thesis using IH by simp
  next
    case (Cons x xs)
    have "plain (l @ concat ls)" using IH l(2) by (simp add: plain_def)
    moreover have "\<not> startswith (l @ concat ls) ''>''"
      using l(1) Cons by (simp add: startswith_char_Cons)
    ultimately show ?thesis by simp
  qed
qed

lemma file_lines_written:
  "list_all tidy rs \<Longrightarrow>
   file_lines (concat (map spec_written rs)) =
     concat (map (\<lambda>r. [header r @ [LF], concat (sequence_lines r) @ [LF]]) rs)"
proof (induction rs)
  case Nil
  then show ?case by simp
next
  case (Cons r rs)
  have h: "LF \<notin> set (header r)" using Cons.prems by (simp add: tidy_def plain_def)
  have q: "LF \<notin> set (concat (sequence_lines r))"
    using Cons.prems concat_plain [of "sequence_lines r"] by (simp add: tidy_def plain_def)
  have "file_lines (concat (map spec_written (r # rs)))
        = file_lines (header r @ LF # (concat (sequence_lines r) @ LF # concat (map spec_written rs)))"
    by (simp add: spec_written_def)
  also have "\<dots> = (header r @ [LF]) # (concat (sequence_lines r) @ [LF]) # file_lines (concat (map spec_written rs))"
    using file_lines_line [OF h] file_lines_line [OF q] by simp
  finally show ?case using Cons by simp
qed

lemma written_no_CR: "list_all tidy rs \<Longrightarrow> CR \<notin> set (concat (map spec_written rs))"
proof (induction rs)
  case Nil
  then show ?case by simp
next
  case (Cons r rs)
  then show ?case using concat_plain [of "sequence_lines r"]
    by (simp add: tidy_def plain_def spec_written_def)
qed

lemma chomp_written:
  "list_all tidy rs \<Longrightarrow>
   map chomp (concat (map (\<lambda>r. [header r @ [LF], concat (sequence_lines r) @ [LF]]) rs))
   = concat (map (\<lambda>r. header r # [concat (sequence_lines r)]) rs)"
proof (induction rs)
  case Nil
  then show ?case by simp
next
  case (Cons r rs)
  then show ?case using concat_plain [of "sequence_lines r"]
    by (simp add: tidy_def chomp_line)
qed

lemma records_of_written:
  assumes "list_all tidy rs"
  shows "spec_records (map chomp (read_lines (concat (map spec_written rs)))) = map unwrapped rs"
proof -
  have "map chomp (read_lines (concat (map spec_written rs)))
        = concat (map (\<lambda>r. header r # [concat (sequence_lines r)]) rs)"
    by (simp only: read_lines_def universal_newlines_id [OF written_no_CR [OF assms]]
      file_lines_written [OF assms] chomp_written [OF assms])
  also have "\<dots> = [] @ concat (map (\<lambda>r. header r # sequence_lines r) (map unwrapped rs))"
    by (simp add: unwrapped_def comp_def)
  finally have "spec_records (map chomp (read_lines (concat (map spec_written rs))))
        = spec_records ([] @ concat (map (\<lambda>r. header r # sequence_lines r) (map unwrapped rs)))"
    by simp
  also have "\<dots> = map unwrapped rs"
  proof (rule spec_records_flatten)
    show "list_all (\<lambda>l. \<not> startswith l ''>'') []" by simp
    show "list_all (\<lambda>r. startswith (header r) ''>''
              \<and> list_all (\<lambda>l. \<not> startswith l ''>'') (sequence_lines r)) (map unwrapped rs)"
    proof -
      have "startswith (header (unwrapped r)) ''>''
              \<and> list_all (\<lambda>l. \<not> startswith l ''>'') (sequence_lines (unwrapped r))"
        if "tidy r" for r
        using that concat_plain [of "sequence_lines r"] by (simp add: unwrapped_def tidy_def)
      then show ?thesis using assms by (auto simp: list_all_iff)
    qed
  qed
  finally show ?thesis .
qed

lemma kept_records_tidy:
  "list_all tidy (filter (spec_kept S) (spec_records (map chomp (read_lines c))))"
  using spec_records_tidy [OF read_lines_plain, of c] by (simp add: list_all_iff)

section \<open>Splitting a line on whitespace\<close>

lemma split_scan_token:
  "list_all (\<lambda>c. \<not> is_space c) xs \<Longrightarrow> split_scan (xs @ ys) tok = split_scan ys (tok @ xs)"
  by (induction xs arbitrary: tok) auto

lemma split_scan_spaces:
  "list_all is_space xs \<Longrightarrow> split_scan (xs @ ys) [] = split_scan ys []"
  by (induction xs) auto

lemma split_scan_emit:
  "tok \<noteq> [] \<Longrightarrow> ys = [] \<or> is_space (hd ys) \<Longrightarrow> \<exists>rest. split_scan ys tok = tok # rest"
  by (cases ys) auto

lemma list_all_takeWhile: "list_all P (takeWhile P xs)"
  by (induction xs) simp_all

lemma split_first_token:
  "(case split line of [] \<Rightarrow> spec_first_token line = [] | p # _ \<Rightarrow> spec_first_token line = p)"
proof -
  define sp where "sp = takeWhile is_space line"
  define r where "r = dropWhile is_space line"
  define tok where "tok = takeWhile (\<lambda>c. \<not> is_space c) r"
  define ys where "ys = dropWhile (\<lambda>c. \<not> is_space c) r"
  have line: "line = sp @ r" by (simp add: sp_def r_def)
  have r: "r = tok @ ys" by (simp add: tok_def ys_def)
  have "split line = split_scan (sp @ r) []" by (simp add: split_def line [symmetric])
  also have "\<dots> = split_scan r []"
    unfolding sp_def by (rule split_scan_spaces) (rule list_all_takeWhile)
  also have "\<dots> = split_scan (tok @ ys) []" by (simp add: r [symmetric])
  also have "\<dots> = split_scan ys ([] @ tok)"
    unfolding tok_def by (rule split_scan_token) (rule list_all_takeWhile)
  finally have eq: "split line = split_scan ys tok" by simp
  have ys: "ys = [] \<or> is_space (hd ys)"
  proof (cases "ys = []")
    case True
    then show ?thesis by simp
  next
    case False
    then show ?thesis using hd_dropWhile [of "\<lambda>c. \<not> is_space c" r] by (simp add: ys_def)
  qed
  have ft: "spec_first_token line = tok" by (simp add: spec_first_token_def tok_def r_def)
  show ?thesis
  proof (cases "tok = []")
    case True
    have "r = []"
    proof (rule ccontr)
      assume nonempty: "r \<noteq> []"
      then have "\<not> is_space (hd r)" using hd_dropWhile [of is_space line] by (simp add: r_def)
      then have "tok \<noteq> []" using nonempty by (cases r) (simp_all add: tok_def)
      then show False using True by simp
    qed
    then have "ys = []" by (simp add: ys_def)
    then show ?thesis using eq True ft by simp
  next
    case False
    then obtain rest where "split_scan ys tok = tok # rest"
      using split_scan_emit [OF False ys] by blast
    then show ?thesis using eq ft by simp
  qed
qed

lemma marker_not_space: "\<not> is_space CHR ''>''"
  by (simp add: is_space_def)

lemma accession_first_token:
  "accession_of line = (if 1 < length (spec_first_token line) then tl (spec_first_token line) else [])"
  using split_first_token [of line]
  by (cases "split line") (simp_all add: accession_of_def drop_Suc)

section \<open>The accession file\<close>

lemma foldl_add_accession:
  "foldl add_accession A ls = A \<union> strip ` {l \<in> set ls. listed l}"
proof (induction ls arbitrary: A)
  case Nil
  then show ?case by simp
next
  case (Cons l ls)
  show ?case
  proof (cases "listed l")
    case True
    then have "add_accession A l = insert (strip l) A"
      by (simp add: add_accession_def listed_def)
    then show ?thesis using Cons [of "insert (strip l) A"] True by auto
  next
    case False
    then have "add_accession A l = A"
      by (auto simp: add_accession_def listed_def Let_def)
    then show ?thesis using Cons [of A] False by auto
  qed
qed

lemma loader_result:
  "files w f = Some c \<Longrightarrow>
   read_accessions_to_remove w f = Inr (strip ` {l \<in> set (read_lines c). listed l})"
  by (simp add: read_accessions_to_remove_def foldl_add_accession)

lemma loader_no_empty:
  assumes "read_accessions_to_remove w f = Inr S"
  shows "[] \<notin> S"
proof (cases "files w f")
  case None
  then show ?thesis using assms by (simp add: read_accessions_to_remove_def)
next
  case (Some c)
  then have "S = strip ` {l \<in> set (read_lines c). listed l}"
    using assms loader_result [OF Some] by simp
  then show ?thesis by (auto simp: listed_def)
qed

lemma strip_blank: "list_all is_space l \<Longrightarrow> strip l = []"
proof -
  assume "list_all is_space l"
  then have d: "dropWhile is_space l = []" by (induction l) simp_all
  show ?thesis unfolding strip_def d by simp
qed

lemma hash_not_space: "\<not> is_space CHR ''#''"
  by (simp add: is_space_def)

lemma strip_comment: "startswith l ''#'' \<Longrightarrow> startswith (strip l) ''#''"
proof (cases l)
  case Nil
  assume "startswith l ''#''"
  then show ?thesis using Nil by (simp add: startswith_char_Nil)
next
  case (Cons x xs)
  assume "startswith l ''#''"
  then have x: "x = CHR ''#''" using Cons by (simp add: startswith_char_Cons)
  have "dropWhile is_space l = l" using Cons x hash_not_space by simp
  moreover have "dropWhile is_space (rev xs @ [x]) = dropWhile is_space (rev xs) @ [x]
                 \<or> dropWhile is_space (rev xs @ [x]) = [x]"
    using x hash_not_space by (simp add: dropWhile_append)
  ultimately have "strip l = x # rev (dropWhile is_space (rev xs)) \<or> strip l = [x]"
    using Cons by (auto simp: strip_def)
  then show ?thesis using x by (auto simp: startswith_char_Cons)
qed

lemma removed_none: "removed_count (filter_text {} c) = 0"
  by (simp add: filter_text_def filter_lines_removed spec_kept_def)

lemma concat_map_member:
  "r \<in> set rs \<Longrightarrow> \<exists>a b. concat (map f rs) = a @ f r @ b"
proof -
  assume "r \<in> set rs"
  then obtain xs ys where "rs = xs @ r # ys" by (meson split_list)
  then have "concat (map f rs) = concat (map f xs) @ f r @ concat (map f ys)" by simp
  then show ?thesis by blast
qed

lemma filter_implied:
  "(\<And>x. P x \<Longrightarrow> Q x) \<Longrightarrow> filter P (filter Q xs) = filter P xs"
  by (induction xs) auto

lemma length_filter_implied:
  "(\<And>x. P x \<Longrightarrow> Q x) \<Longrightarrow>
   length (filter Q xs) = length (filter P xs) + length (filter (\<lambda>x. \<not> P x \<and> Q x) xs)"
  by (induction xs) auto

lemma filter_not_implied:
  "(\<And>x. P x \<Longrightarrow> Q x) \<Longrightarrow>
   filter (\<lambda>x. \<not> Q x) xs = filter (\<lambda>x. \<not> P x \<and> \<not> Q x) xs"
  by (induction xs) auto

lemma short_token_kept: "[] \<notin> S \<Longrightarrow> short_token r \<Longrightarrow> spec_kept S r"
  by (simp add: short_token_def spec_kept_def accession_first_token)

section \<open>A run of process\_fasta\<close>

lemma stderr_deliver: "stderr (deliver w output_fasta written) = stderr w"
  by (simp add: deliver_def split: option.split)

lemma process_fasta_run:
  assumes "open_output w output_fasta = Inr w1" and "files w1 input_fasta = Some content"
  shows "process_fasta w input_fasta output_fasta S =
     Inr (filter_text S content,
          (deliver w1 output_fasta (out_file (filter_text S content)))
            \<lparr>stderr := stderr w1 @ summary (filter_text S content) @ [LF]\<rparr>)"
  using assms by (simp add: process_fasta_def Let_def stderr_deliver)

lemma filter_text_empty: "filter_text S [] = initial_state"
  by (simp add: filter_text_def filter_lines_def read_lines_def process_previous_def
      initial_fields)

section \<open>Replacing the escaped newlines\<close>

lemma startswith_escape:
  "startswith (c # cs) escaped_newline = (c = BACKSLASH \<and> cs \<noteq> [] \<and> hd cs = CHR ''n'')"
  by (cases cs) (auto simp: startswith_def)

lemma replace_scan_match:
  "replace_scan (BACKSLASH # CHR ''n'' # v) escaped_newline [LF]
     = LF # replace_scan v escaped_newline [LF]"
  by (simp add: startswith_escape)

lemma replace_scan_split:
  "replace_scan (u @ escaped_newline @ v) escaped_newline [LF]
     = replace_scan u escaped_newline [LF] @ [LF] @ replace_scan v escaped_newline [LF]"
proof (induction u rule: length_induct)
  case (1 u)
  show ?case
  proof (cases u)
    case Nil
    then show ?thesis using replace_scan_match [of v] by simp
  next
    case (Cons c u')
    show ?thesis
    proof (cases "startswith (c # u') escaped_newline")
      case True
      then obtain u'' where u': "c = BACKSLASH" "u' = CHR ''n'' # u''"
        by (cases u') (auto simp: startswith_escape)
      have "length u'' < length u" using Cons u' by simp
      then have IH: "replace_scan (u'' @ escaped_newline @ v) escaped_newline [LF]
           = replace_scan u'' escaped_newline [LF] @ [LF] @ replace_scan v escaped_newline [LF]"
        using 1 by blast
      show ?thesis using Cons u' IH replace_scan_match [of "u'' @ escaped_newline @ v"]
          replace_scan_match [of u''] by simp
    next
      case False
      then have no: "\<not> startswith (c # u' @ escaped_newline @ v) escaped_newline"
        by (cases u') (auto simp: startswith_escape)
      have "length u' < length u" using Cons by simp
      then have IH: "replace_scan (u' @ escaped_newline @ v) escaped_newline [LF]
           = replace_scan u' escaped_newline [LF] @ [LF] @ replace_scan v escaped_newline [LF]"
        using 1 by blast
      have "replace_scan (c # u' @ escaped_newline @ v) escaped_newline [LF]
            = c # replace_scan (u' @ escaped_newline @ v) escaped_newline [LF]"
        using no by simp
      moreover have "replace_scan (c # u') escaped_newline [LF]
            = c # replace_scan u' escaped_newline [LF]"
        using False by simp
      ultimately show ?thesis using Cons IH by simp
    qed
  qed
qed

lemma replace_scan_none:
  "(\<forall>u v. s \<noteq> u @ escaped_newline @ v) \<Longrightarrow> replace_scan s escaped_newline [LF] = s"
proof (induction s)
  case Nil
  then show ?case by simp
next
  case (Cons c cs)
  have "\<not> startswith (c # cs) escaped_newline"
  proof
    assume "startswith (c # cs) escaped_newline"
    then obtain v where "c # cs = [] @ escaped_newline @ v"
      by (cases cs) (auto simp: startswith_escape)
    then show False using Cons.prems by blast
  qed
  moreover have "\<forall>u v. cs \<noteq> u @ escaped_newline @ v"
  proof (intro allI notI)
    fix u v assume "cs = u @ escaped_newline @ v"
    then have "c # cs = (c # u) @ escaped_newline @ v" by simp
    then show False using Cons.prems by blast
  qed
  ultimately show ?case using Cons.IH by simp
qed

lemma replace_escape: "replace s escaped_newline [LF] = replace_scan s escaped_newline [LF]"
  by (simp add: replace_def)

section \<open>The claims\<close>

text \<open>
  C1. For every sequence of input lines and every exclusion set, the text the filter writes
  is the kept records, one after the other in the order of the input: the records of the
  input whose accession is not in the exclusion set. Lines before the first header line
  belong to no record and leave the whole run as it is without them.
\<close>

theorem filter_writes_kept_records_in_order:
  "out_file (filter_lines S ls) =
     concat (map spec_written (filter (spec_kept S) (spec_records (map chomp ls))))
   \<and> (list_all (\<lambda>l. \<not> startswith (chomp l) ''>'') pre \<longrightarrow>
        spec_records (map chomp (pre @ ls)) = spec_records (map chomp ls)
        \<and> filter_lines S (pre @ ls) = filter_lines S ls)"
proof -
  have "spec_records (map chomp (pre @ ls)) = spec_records (map chomp ls)"
    if "list_all (\<lambda>l. \<not> startswith (chomp l) ''>'') pre"
    using that spec_records_skip [of "map chomp pre" "map chomp ls"]
    by (simp add: list_all_iff)
  moreover have "filter_lines S (pre @ ls) = filter_lines S ls"
    if "list_all (\<lambda>l. \<not> startswith (chomp l) ''>'') pre"
    using foldl_skip [OF initial_fields(4) that, of S] by (simp add: filter_lines_def)
  ultimately show ?thesis
    using filter_lines_out [of S ls] by blast
qed

theorem filter_writes_kept_records_in_order_witness:
  "list_all (\<lambda>l. \<not> startswith (chomp l) ''>'') [''stray line'' @ [LF], [LF]]
   \<and> spec_records (map chomp ([''stray line'' @ [LF], [LF]]
         @ [''>ACC1 desc one'' @ [LF], ''AAAA'' @ [LF], ''CCCC'' @ [LF],
            ''>ACC2 desc two'' @ [LF], ''GGGG'' @ [LF]]))
       = [\<lparr>header = ''>ACC1 desc one'', sequence_lines = [''AAAA'', ''CCCC'']\<rparr>,
          \<lparr>header = ''>ACC2 desc two'', sequence_lines = [''GGGG'']\<rparr>]
   \<and> filter_lines {''ACC1''} ([''stray line'' @ [LF], [LF]]
         @ [''>ACC1 desc one'' @ [LF], ''AAAA'' @ [LF], ''CCCC'' @ [LF],
            ''>ACC2 desc two'' @ [LF], ''GGGG'' @ [LF]])
       = filter_lines {''ACC1''}
           [''>ACC1 desc one'' @ [LF], ''AAAA'' @ [LF], ''CCCC'' @ [LF],
            ''>ACC2 desc two'' @ [LF], ''GGGG'' @ [LF]]
   \<and> out_file (filter_lines {''ACC1''}
           [''>ACC1 desc one'' @ [LF], ''AAAA'' @ [LF], ''CCCC'' @ [LF],
            ''>ACC2 desc two'' @ [LF], ''GGGG'' @ [LF]])
       = ''>ACC2 desc two'' @ [LF] @ ''GGGG'' @ [LF]"
  using filter_writes_kept_records_in_order
    [of "{''ACC1''}"
        "[''>ACC1 desc one'' @ [LF], ''AAAA'' @ [LF], ''CCCC'' @ [LF],
          ''>ACC2 desc two'' @ [LF], ''GGGG'' @ [LF]]"
        "[''stray line'' @ [LF], [LF]]"]
  by code_simp

text \<open>
  C2. Finishing a record adds one to exactly one of the two counters; at the end of the
  pass \<open>kept_count\<close> is the number of kept records, \<open>removed_count\<close> the number of the
  others, and their sum is the number of header lines of the input.
\<close>

theorem counters_partition_the_records:
  "kept_count (filter_lines S ls) =
     length (filter (spec_kept S) (spec_records (map chomp ls)))
   \<and> removed_count (filter_lines S ls) =
     length (filter (\<lambda>r. \<not> spec_kept S r) (spec_records (map chomp ls)))
   \<and> kept_count (filter_lines S ls) + removed_count (filter_lines S ls) =
     length (filter (\<lambda>l. startswith (chomp l) ''>'') ls)
   \<and> (current_header s \<noteq> None \<longrightarrow>
        (kept_count (process_previous s) = kept_count s + 1
           \<and> removed_count (process_previous s) = removed_count s)
        \<noteq> (removed_count (process_previous s) = removed_count s + 1
           \<and> kept_count (process_previous s) = kept_count s))"
proof -
  have "length (filter (spec_kept S) (spec_records (map chomp ls)))
        + length (filter (\<lambda>r. \<not> spec_kept S r) (spec_records (map chomp ls)))
        = length (filter (\<lambda>l. startswith (chomp l) ''>'') ls)"
    using sum_length_filter_compl [of "spec_kept S" "spec_records (map chomp ls)"]
    by (simp add: length_spec_records filter_map comp_def)
  moreover have "current_header s \<noteq> None \<longrightarrow>
        (kept_count (process_previous s) = kept_count s + 1
           \<and> removed_count (process_previous s) = removed_count s)
        \<noteq> (removed_count (process_previous s) = removed_count s + 1
           \<and> kept_count (process_previous s) = kept_count s)"
    by (auto simp: process_previous_def)
  ultimately show ?thesis
    by (simp add: filter_lines_kept filter_lines_removed)
qed

theorem counters_partition_the_records_witness:
  "current_header (initial_state\<lparr>current_header := Some ''>ACC1'', skip_current := True\<rparr>) \<noteq> None
   \<and> removed_count (process_previous
         (initial_state\<lparr>current_header := Some ''>ACC1'', skip_current := True\<rparr>)) = 1
   \<and> kept_count (process_previous
         (initial_state\<lparr>current_header := Some ''>ACC1'', skip_current := True\<rparr>)) = 0
   \<and> kept_count (filter_lines {''ACC1''}
         [''>ACC1 desc one'' @ [LF], ''AAAA'' @ [LF], ''>ACC2 desc two'' @ [LF],
          ''GGGG'' @ [LF], ''>ACC3'' @ [LF]]) = 2
   \<and> removed_count (filter_lines {''ACC1''}
         [''>ACC1 desc one'' @ [LF], ''AAAA'' @ [LF], ''>ACC2 desc two'' @ [LF],
          ''GGGG'' @ [LF], ''>ACC3'' @ [LF]]) = 1
   \<and> length (filter (\<lambda>l. startswith (chomp l) ''>'')
         [''>ACC1 desc one'' @ [LF], ''AAAA'' @ [LF], ''>ACC2 desc two'' @ [LF],
          ''GGGG'' @ [LF], ''>ACC3'' @ [LF]]) = 3"
  using counters_partition_the_records
    [of "{''ACC1''}"
        "[''>ACC1 desc one'' @ [LF], ''AAAA'' @ [LF], ''>ACC2 desc two'' @ [LF],
          ''GGGG'' @ [LF], ''>ACC3'' @ [LF]]"
        "initial_state\<lparr>current_header := Some ''>ACC1'', skip_current := True\<rparr>"]
  by code_simp

text \<open>
  C3. The lines of the output are, for every kept record in turn, exactly two: the header
  line, then one line that is the sequence lines of the record joined with nothing put
  between them, however many sequence lines (none included) the record had in the input.
\<close>

theorem kept_record_written_as_two_lines:
  "file_lines (out_file (filter_text S c)) =
     concat (map (\<lambda>r. [header r @ [LF], concat (sequence_lines r) @ [LF]])
       (filter (spec_kept S) (spec_records (map chomp (read_lines c)))))"
  using file_lines_written [OF kept_records_tidy, of S c]
  by (simp add: filter_text_def filter_lines_out)

theorem kept_record_written_as_two_lines_witness:
  "file_lines (out_file (filter_text {''ACC1''}
      (''>ACC2 two'' @ [CR, LF] @ ''GG'' @ [CR, LF] @ ''TT'' @ [LF] @ ''>ACC1'' @ [LF]
        @ ''AA'' @ [LF] @ ''>ACC3'')))
   = [''>ACC2 two'' @ [LF], ''GGTT'' @ [LF], ''>ACC3'' @ [LF], [LF]]"
  using kept_record_written_as_two_lines
    [of "{''ACC1''}"
        "''>ACC2 two'' @ [CR, LF] @ ''GG'' @ [CR, LF] @ ''TT'' @ [LF] @ ''>ACC1'' @ [LF]
          @ ''AA'' @ [LF] @ ''>ACC3''"]
  by code_simp

text \<open>
  C4. Filtering the output of a first pass again, against the same exclusion set, removes
  nothing and writes a text identical to the text it read; it keeps as many records as
  the first pass kept.
\<close>

theorem refiltering_is_idempotent:
  "removed_count (filter_text S (out_file (filter_text S c))) = 0
   \<and> out_file (filter_text S (out_file (filter_text S c))) = out_file (filter_text S c)
   \<and> kept_count (filter_text S (out_file (filter_text S c))) = kept_count (filter_text S c)"
proof -
  let ?ks = "filter (spec_kept S) (spec_records (map chomp (read_lines c)))"
  have out1: "out_file (filter_text S c) = concat (map spec_written ?ks)"
    by (simp add: filter_text_def filter_lines_out)
  have recs2: "spec_records (map chomp (read_lines (out_file (filter_text S c)))) = map unwrapped ?ks"
    using records_of_written [OF kept_records_tidy, of S c] out1 by simp
  have kept_unwrapped: "spec_kept S (unwrapped r) = spec_kept S r" for r
    by (simp add: spec_kept_def unwrapped_def)
  have keep2: "filter (spec_kept S) (map unwrapped ?ks) = map unwrapped ?ks"
    by (simp add: filter_map comp_def kept_unwrapped)
  have drop2: "filter (\<lambda>r. \<not> spec_kept S r) (map unwrapped ?ks) = []"
    by (simp add: filter_map comp_def kept_unwrapped)
  have same: "map spec_written (map unwrapped ?ks) = map spec_written ?ks"
    by (simp add: spec_written_def unwrapped_def)
  have "removed_count (filter_text S (out_file (filter_text S c))) = 0"
    unfolding filter_text_def [of S "out_file (filter_text S c)"] filter_lines_removed recs2 drop2
    by simp
  moreover have "out_file (filter_text S (out_file (filter_text S c))) = out_file (filter_text S c)"
    unfolding filter_text_def [of S "out_file (filter_text S c)"] filter_lines_out recs2 keep2 same
    using out1 by simp
  moreover have "kept_count (filter_text S (out_file (filter_text S c))) = kept_count (filter_text S c)"
    unfolding filter_text_def [of S "out_file (filter_text S c)"] filter_lines_kept recs2 keep2
    by (simp add: filter_text_def filter_lines_kept)
  ultimately show ?thesis by blast
qed

theorem refiltering_is_idempotent_witness:
  "removed_count (filter_text {''ACC1''} (out_file (filter_text {''ACC1''}
      (''>ACC2 two'' @ [CR, LF] @ ''GG'' @ [CR, LF] @ ''TT'' @ [LF] @ ''>ACC1'' @ [LF]
        @ ''AA'' @ [LF] @ ''>ACC3'')))) = 0
   \<and> out_file (filter_text {''ACC1''} (out_file (filter_text {''ACC1''}
      (''>ACC2 two'' @ [CR, LF] @ ''GG'' @ [CR, LF] @ ''TT'' @ [LF] @ ''>ACC1'' @ [LF]
        @ ''AA'' @ [LF] @ ''>ACC3''))))
     = ''>ACC2 two'' @ [LF] @ ''GGTT'' @ [LF] @ ''>ACC3'' @ [LF, LF]"
  using refiltering_is_idempotent
    [of "{''ACC1''}"
        "''>ACC2 two'' @ [CR, LF] @ ''GG'' @ [CR, LF] @ ''TT'' @ [LF] @ ''>ACC1'' @ [LF]
          @ ''AA'' @ [LF] @ ''>ACC3''"]
  by code_simp

text \<open>
  C5. The accession of a line is found from the list \<open>split\<close> returns: its first element is
  the first token of the line (and the list is empty exactly when there is no token); when
  that token has more than one character the accession is the token without its first
  character, else it is the empty text. On a header line the first token starts the line
  and its first character, the one removed, is the marker.
\<close>

theorem accession_is_first_token_without_marker:
  "(case split line of [] \<Rightarrow> spec_first_token line = [] | p # _ \<Rightarrow> spec_first_token line = p)
   \<and> accession_of line = (if 1 < length (spec_first_token line) then tl (spec_first_token line) else [])
   \<and> (startswith line ''>'' \<longrightarrow>
        spec_first_token line = takeWhile (\<lambda>c. \<not> is_space c) line
        \<and> spec_first_token line \<noteq> [] \<and> hd (spec_first_token line) = CHR ''>'')"
proof -
  have a: "(case split line of [] \<Rightarrow> spec_first_token line = [] | p # _ \<Rightarrow> spec_first_token line = p)"
    by (rule split_first_token)
  have b: "accession_of line = (if 1 < length (spec_first_token line) then tl (spec_first_token line) else [])"
    by (rule accession_first_token)
  have c: "spec_first_token line = takeWhile (\<lambda>c. \<not> is_space c) line
        \<and> spec_first_token line \<noteq> [] \<and> hd (spec_first_token line) = CHR ''>''"
    if "startswith line ''>''"
  proof (cases line)
    case Nil
    then show ?thesis using that by (simp add: startswith_char_Nil)
  next
    case (Cons x xs)
    then have "x = CHR ''>''" using that by (simp add: startswith_char_Cons)
    then show ?thesis using Cons marker_not_space by (simp add: spec_first_token_def)
  qed
  show ?thesis using a b c by blast
qed

theorem accession_is_first_token_without_marker_witness:
  "startswith ''>ACC1 desc one'' ''>''
   \<and> spec_first_token ''>ACC1 desc one'' = ''>ACC1''
   \<and> split ''>ACC1 desc one'' = [''>ACC1'', ''desc'', ''one'']
   \<and> accession_of ''>ACC1 desc one'' = ''ACC1''
   \<and> accession_of ''> ACC1 desc one'' = []
   \<and> accession_of ''>'' = []"
  using accession_is_first_token_without_marker [of "''>ACC1 desc one''"]
  by code_simp

text \<open>
  C6. An exclusion set that the loader returned does not hold the empty text. So a record
  whose header has a first token of at most one character has the empty accession and is
  matched by no entry. Every such record is written: the output is the kept records one
  after the other, and the records with a short token among the kept ones are all the
  records with a short token of the input, each as often and in the order it stands
  there. Every such record is counted as kept: \<open>kept_count\<close> is their number plus the
  number of the other kept records, and \<open>removed_count\<close> counts records with a longer
  token only.
\<close>

theorem short_token_record_is_kept:
  assumes "read_accessions_to_remove w f = Inr S"
    and "r \<in> set (spec_records (map chomp ls))"
    and "length (spec_first_token (header r)) \<le> 1"
  shows "[] \<notin> S \<and> accession_of (header r) = [] \<and> spec_kept S r
    \<and> (\<exists>a b. out_file (filter_lines S ls) = a @ spec_written r @ b)
    \<and> 0 < kept_count (filter_lines S ls)
    \<and> out_file (filter_lines S ls)
        = concat (map spec_written (filter (spec_kept S) (spec_records (map chomp ls))))
    \<and> filter short_token (filter (spec_kept S) (spec_records (map chomp ls)))
        = filter short_token (spec_records (map chomp ls))
    \<and> kept_count (filter_lines S ls)
        = length (filter short_token (spec_records (map chomp ls)))
          + length (filter (\<lambda>x. \<not> short_token x \<and> spec_kept S x)
                      (spec_records (map chomp ls)))
    \<and> removed_count (filter_lines S ls)
        = length (filter (\<lambda>x. \<not> short_token x \<and> \<not> spec_kept S x)
                    (spec_records (map chomp ls)))"
proof -
  let ?recs = "spec_records (map chomp ls)"
  have e: "[] \<notin> S" using assms(1) by (rule loader_no_empty)
  have a: "accession_of (header r) = []"
    using assms(3) by (simp add: accession_first_token)
  have k: "spec_kept S r" using e a by (simp add: spec_kept_def)
  have m: "r \<in> set (filter (spec_kept S) ?recs)"
    using assms(2) k by simp
  have o: "\<exists>a b. out_file (filter_lines S ls) = a @ spec_written r @ b"
    unfolding filter_lines_out using m by (rule concat_map_member)
  have c: "0 < kept_count (filter_lines S ls)"
    unfolding filter_lines_kept using m by (simp only: length_pos_if_in_set)
  have all: "\<And>x. short_token x \<Longrightarrow> spec_kept S x"
    using e by (rule short_token_kept)
  have written: "filter short_token (filter (spec_kept S) ?recs) = filter short_token ?recs"
    using all by (rule filter_implied)
  have counted: "kept_count (filter_lines S ls)
        = length (filter short_token ?recs)
          + length (filter (\<lambda>x. \<not> short_token x \<and> spec_kept S x) ?recs)"
    unfolding filter_lines_kept using all by (rule length_filter_implied)
  have removed: "removed_count (filter_lines S ls)
        = length (filter (\<lambda>x. \<not> short_token x \<and> \<not> spec_kept S x) ?recs)"
    unfolding filter_lines_removed using filter_not_implied [of short_token "spec_kept S" ?recs] all
    by simp
  show ?thesis using e a k o c filter_lines_out [of S ls] written counted removed by blast
qed

theorem short_token_record_is_kept_witness:
  "read_accessions_to_remove
      \<lparr>files = [''acc.txt'' \<mapsto> ''# listed'' @ [LF] @ ''ACC1'' @ [LF, LF]], unwritable = {},
       stdout = [], stderr = []\<rparr> ''acc.txt'' = Inr {''ACC1''}
   \<and> \<lparr>header = ''> ACC1 odd'', sequence_lines = [''AAAA'']\<rparr>
       \<in> set (spec_records (map chomp
           [''> ACC1 odd'' @ [LF], ''AAAA'' @ [LF], ''>ACC1'' @ [LF], ''CC'' @ [LF],
            ''>'' @ [LF], ''GG'' @ [LF], ''>ACC2'' @ [LF], ''TT'' @ [LF], ''> x'' @ [LF]]))
   \<and> length (spec_first_token ''> ACC1 odd'') \<le> 1
   \<and> accession_of ''> ACC1 odd'' = []
   \<and> [] \<notin> {''ACC1''}
   \<and> length (filter short_token (spec_records (map chomp
           [''> ACC1 odd'' @ [LF], ''AAAA'' @ [LF], ''>ACC1'' @ [LF], ''CC'' @ [LF],
            ''>'' @ [LF], ''GG'' @ [LF], ''>ACC2'' @ [LF], ''TT'' @ [LF], ''> x'' @ [LF]]))) = 3
   \<and> kept_count (filter_lines {''ACC1''}
           [''> ACC1 odd'' @ [LF], ''AAAA'' @ [LF], ''>ACC1'' @ [LF], ''CC'' @ [LF],
            ''>'' @ [LF], ''GG'' @ [LF], ''>ACC2'' @ [LF], ''TT'' @ [LF], ''> x'' @ [LF]]) = 4
   \<and> removed_count (filter_lines {''ACC1''}
           [''> ACC1 odd'' @ [LF], ''AAAA'' @ [LF], ''>ACC1'' @ [LF], ''CC'' @ [LF],
            ''>'' @ [LF], ''GG'' @ [LF], ''>ACC2'' @ [LF], ''TT'' @ [LF], ''> x'' @ [LF]]) = 1
   \<and> out_file (filter_lines {''ACC1''}
           [''> ACC1 odd'' @ [LF], ''AAAA'' @ [LF], ''>ACC1'' @ [LF], ''CC'' @ [LF],
            ''>'' @ [LF], ''GG'' @ [LF], ''>ACC2'' @ [LF], ''TT'' @ [LF], ''> x'' @ [LF]])
       = ''> ACC1 odd'' @ [LF] @ ''AAAA'' @ [LF] @ ''>'' @ [LF] @ ''GG'' @ [LF]
         @ ''>ACC2'' @ [LF] @ ''TT'' @ [LF] @ ''> x'' @ [LF, LF]"
proof -
  let ?w = "\<lparr>files = [''acc.txt'' \<mapsto> ''# listed'' @ [LF] @ ''ACC1'' @ [LF, LF]],
             unwritable = {}, stdout = [], stderr = []\<rparr>"
  let ?r = "\<lparr>header = ''> ACC1 odd'', sequence_lines = [''AAAA'']\<rparr>"
  let ?ls = "[''> ACC1 odd'' @ [LF], ''AAAA'' @ [LF], ''>ACC1'' @ [LF], ''CC'' @ [LF],
            ''>'' @ [LF], ''GG'' @ [LF], ''>ACC2'' @ [LF], ''TT'' @ [LF], ''> x'' @ [LF]]"
  let ?recs = "spec_records (map chomp ?ls)"
  have p1: "read_accessions_to_remove ?w ''acc.txt'' = Inr {''ACC1''}"
    by code_simp
  have p2: "?r \<in> set ?recs"
    by code_simp
  have p3: "length (spec_first_token (header ?r)) \<le> 1"
    by code_simp
  have e1: "length (filter short_token ?recs) = 3"
    by code_simp
  have e2: "length (filter (\<lambda>x. \<not> short_token x \<and> spec_kept {''ACC1''} x) ?recs) = 1"
    by code_simp
  have e3: "length (filter (\<lambda>x. \<not> short_token x \<and> \<not> spec_kept {''ACC1''} x) ?recs) = 1"
    by code_simp
  have e4: "concat (map spec_written (filter (spec_kept {''ACC1''}) ?recs))
      = ''> ACC1 odd'' @ [LF] @ ''AAAA'' @ [LF] @ ''>'' @ [LF] @ ''GG'' @ [LF]
         @ ''>ACC2'' @ [LF] @ ''TT'' @ [LF] @ ''> x'' @ [LF, LF]"
    by code_simp
  note inst = short_token_record_is_kept [OF p1 p2 p3]
  from inst have a: "accession_of (header ?r) = []" and n: "[] \<notin> {''ACC1''}"
    by blast+
  from inst have "kept_count (filter_lines {''ACC1''} ?ls)
        = length (filter short_token ?recs)
          + length (filter (\<lambda>x. \<not> short_token x \<and> spec_kept {''ACC1''} x) ?recs)"
    by blast
  then have k: "kept_count (filter_lines {''ACC1''} ?ls) = 4"
    unfolding e1 e2 by simp
  from inst have "removed_count (filter_lines {''ACC1''} ?ls)
        = length (filter (\<lambda>x. \<not> short_token x \<and> \<not> spec_kept {''ACC1''} x) ?recs)"
    by blast
  then have r: "removed_count (filter_lines {''ACC1''} ?ls) = 1"
    unfolding e3 .
  from inst have "out_file (filter_lines {''ACC1''} ?ls)
        = concat (map spec_written (filter (spec_kept {''ACC1''}) ?recs))"
    by blast
  then have out: "out_file (filter_lines {''ACC1''} ?ls)
      = ''> ACC1 odd'' @ [LF] @ ''AAAA'' @ [LF] @ ''>'' @ [LF] @ ''GG'' @ [LF]
         @ ''>ACC2'' @ [LF] @ ''TT'' @ [LF] @ ''> x'' @ [LF, LF]"
    unfolding e4 .
  have a': "accession_of ''> ACC1 odd'' = []" using a by simp
  have p3': "length (spec_first_token ''> ACC1 odd'') \<le> 1" using p3 by simp
  show ?thesis
    using p1 p2 p3' a' n e1 k r out by blast
qed

text \<open>
  C7. The loader returns the set of the stripped lines of the accession file that are not
  empty and do not begin with \<open>#\<close>. When every line of the file is blank or begins with
  \<open>#\<close> that set is empty, and the filter run on any input against it removes nothing.
\<close>

theorem loader_returns_listed_lines:
  assumes "files w f = Some c"
  shows "read_accessions_to_remove w f =
      Inr {strip l | l. l \<in> set (read_lines c) \<and> strip l \<noteq> [] \<and> hd (strip l) \<noteq> CHR ''#''}
    \<and> (list_all (\<lambda>l. list_all is_space l \<or> startswith l ''#'') (read_lines c) \<longrightarrow>
         read_accessions_to_remove w f = Inr {}
         \<and> removed_count (filter_text {} input) = 0)"
proof -
  have hd_hash: "listed l = (strip l \<noteq> [] \<and> hd (strip l) \<noteq> CHR ''#'')" for l
    by (cases "strip l") (simp_all add: listed_def startswith_char_Cons)
  have "strip ` {l \<in> set (read_lines c). listed l}
        = {strip l | l. l \<in> set (read_lines c) \<and> strip l \<noteq> [] \<and> hd (strip l) \<noteq> CHR ''#''}"
    using hd_hash by blast
  then have first: "read_accessions_to_remove w f =
      Inr {strip l | l. l \<in> set (read_lines c) \<and> strip l \<noteq> [] \<and> hd (strip l) \<noteq> CHR ''#''}"
    using loader_result [OF assms] by simp
  have second: "read_accessions_to_remove w f = Inr {}"
    if "list_all (\<lambda>l. list_all is_space l \<or> startswith l ''#'') (read_lines c)"
  proof -
    have "\<not> listed l" if "l \<in> set (read_lines c)" for l
    proof -
      from that \<open>list_all _ (read_lines c)\<close>
      have "list_all is_space l \<or> startswith l ''#''" by (simp add: list_all_iff)
      then show ?thesis using strip_blank [of l] strip_comment [of l]
        by (auto simp: listed_def)
    qed
    then have "{l \<in> set (read_lines c). listed l} = {}" by blast
    then show ?thesis using loader_result [OF assms] by simp
  qed
  show ?thesis using first second removed_none [of input] by simp
qed

theorem loader_returns_listed_lines_witness:
  "files \<lparr>files = [''acc.txt'' \<mapsto> ''# only comments'' @ [LF, LF] @ ''   '' @ [CR, LF] @ ''#ACC1''],
          unwritable = {}, stdout = [], stderr = []\<rparr> ''acc.txt''
     = Some (''# only comments'' @ [LF, LF] @ ''   '' @ [CR, LF] @ ''#ACC1'')
   \<and> list_all (\<lambda>l. list_all is_space l \<or> startswith l ''#'')
        (read_lines (''# only comments'' @ [LF, LF] @ ''   '' @ [CR, LF] @ ''#ACC1''))
   \<and> read_accessions_to_remove
        \<lparr>files = [''acc.txt'' \<mapsto> ''# only comments'' @ [LF, LF] @ ''   '' @ [CR, LF] @ ''#ACC1''],
         unwritable = {}, stdout = [], stderr = []\<rparr> ''acc.txt'' = Inr {}
   \<and> removed_count (filter_text {} (''>ACC1'' @ [LF] @ ''AA'' @ [LF])) = 0"
proof -
  let ?c = "''# only comments'' @ [LF, LF] @ ''   '' @ [CR, LF] @ ''#ACC1''"
  let ?w = "\<lparr>files = [''acc.txt'' \<mapsto> ?c], unwritable = {}, stdout = [], stderr = []\<rparr>"
  have p1: "files ?w ''acc.txt'' = Some ?c"
    by simp
  have p2: "list_all (\<lambda>l. list_all is_space l \<or> startswith l ''#'') (read_lines ?c)"
    by code_simp
  have "list_all (\<lambda>l. list_all is_space l \<or> startswith l ''#'') (read_lines ?c) \<longrightarrow>
          read_accessions_to_remove ?w ''acc.txt'' = Inr {}
          \<and> removed_count (filter_text {} (''>ACC1'' @ [LF] @ ''AA'' @ [LF])) = 0"
    using loader_returns_listed_lines [OF p1, of "''>ACC1'' @ [LF] @ ''AA'' @ [LF]"]
    by (rule conjunct2)
  then have "read_accessions_to_remove ?w ''acc.txt'' = Inr {}
          \<and> removed_count (filter_text {} (''>ACC1'' @ [LF] @ ''AA'' @ [LF])) = 0"
    using p2 by (rule mp)
  then show ?thesis
    using p1 p2 by blast
qed

text \<open>
  C8. When the output can be opened and the input can be read, \<open>process_fasta\<close> returns
  without an error, whatever the input and the exclusion set hold. On an empty input it
  writes nothing, both counters are zero and the summary says so; with an empty exclusion
  set \<open>removed_count\<close> is zero.
\<close>

theorem empty_runs_succeed:
  assumes "open_output w output_fasta = Inr w1" and "files w1 input_fasta = Some content"
  shows "\<exists>s w2. process_fasta w input_fasta output_fasta S = Inr (s, w2)
    \<and> (content = [] \<longrightarrow>
          out_file s = [] \<and> kept_count s = 0 \<and> removed_count s = 0
          \<and> w2 = (deliver w1 output_fasta [])
                   \<lparr>stderr := stderr w1 @ ''Kept 0 sequences, removed 0 sequences'' @ [LF]\<rparr>)
    \<and> (S = {} \<longrightarrow> removed_count s = 0)"
proof -
  let ?s = "filter_text S content"
  let ?w2 = "(deliver w1 output_fasta (out_file ?s))\<lparr>stderr := stderr w1 @ summary ?s @ [LF]\<rparr>"
  have run: "process_fasta w input_fasta output_fasta S = Inr (?s, ?w2)"
    using assms by (rule process_fasta_run)
  have empty: "out_file ?s = [] \<and> kept_count ?s = 0 \<and> removed_count ?s = 0
      \<and> ?w2 = (deliver w1 output_fasta [])
                   \<lparr>stderr := stderr w1 @ ''Kept 0 sequences, removed 0 sequences'' @ [LF]\<rparr>"
    if "content = []"
    using that by (simp add: filter_text_empty initial_fields summary_def)
  have none: "removed_count ?s = 0" if "S = {}"
    using that removed_none [of content] by simp
  show ?thesis using run empty none by blast
qed

theorem empty_runs_succeed_witness:
  "open_output \<lparr>files = [''empty.fasta'' \<mapsto> []], unwritable = {}, stdout = [], stderr = []\<rparr>
       None
     = Inr \<lparr>files = [''empty.fasta'' \<mapsto> []], unwritable = {}, stdout = [], stderr = []\<rparr>
   \<and> files \<lparr>files = [''empty.fasta'' \<mapsto> []], unwritable = {}, stdout = [], stderr = []\<rparr>
         ''empty.fasta'' = Some []
   \<and> (\<exists>s w2. process_fasta
          \<lparr>files = [''empty.fasta'' \<mapsto> []], unwritable = {}, stdout = [], stderr = []\<rparr>
          ''empty.fasta'' None {} = Inr (s, w2)
        \<and> out_file s = [] \<and> kept_count s = 0 \<and> removed_count s = 0)"
proof -
  let ?w = "\<lparr>files = [''empty.fasta'' \<mapsto> []], unwritable = {}, stdout = [], stderr = []\<rparr>"
  have p1: "open_output ?w None = Inr ?w"
    by (simp add: open_output_def)
  have p2: "files ?w ''empty.fasta'' = Some []"
    by simp
  have "\<exists>s w2. process_fasta ?w ''empty.fasta'' None {} = Inr (s, w2)
        \<and> out_file s = [] \<and> kept_count s = 0 \<and> removed_count s = 0"
    using empty_runs_succeed [OF p1 p2, of "{}"] by blast
  then show ?thesis using p1 p2 by blast
qed

text \<open>
  C9, as the code has it. \<open>convert_literal_newlines\<close> reads the intermediate file in text
  mode, so the text it works on is the file's content with every \<open>CR LF\<close> and every lone
  \<open>CR\<close> turned into \<open>LF\<close>. It writes to the output path exactly that text with every
  occurrence of the two characters backslash and \<open>n\<close> replaced by \<open>LF\<close>, and touches no
  other file: the replacement acts at every occurrence (the text splits there) and
  leaves a text without an occurrence as it is. For a file without \<open>CR\<close> this is the
  file's own content with the occurrences replaced.
\<close>

theorem convert_writes_unescaped_text:
  assumes "files w input_file = Some raw" and "output_file \<notin> unwritable w"
  shows "(\<exists>w'. convert_literal_newlines w input_file output_file = Inr w'
       \<and> files w' output_file = Some (replace (universal_newlines raw) escaped_newline [LF])
       \<and> (\<forall>p. p \<noteq> output_file \<longrightarrow> files w' p = files w p)
       \<and> (CR \<notin> set raw \<longrightarrow>
            files w' output_file = Some (replace raw escaped_newline [LF])))
    \<and> replace (u @ escaped_newline @ v) escaped_newline [LF]
        = replace u escaped_newline [LF] @ [LF] @ replace v escaped_newline [LF]
    \<and> ((\<forall>a b. s \<noteq> a @ escaped_newline @ b) \<longrightarrow> replace s escaped_newline [LF] = s)"
proof -
  let ?text = "replace (universal_newlines raw) escaped_newline [LF]"
  let ?w' = "w\<lparr>files := (files w)(output_file \<mapsto> ?text),
               stderr := stderr w @ ''Converted literal newlines: '' @ input_file
                         @ '' -> '' @ output_file @ [LF]\<rparr>"
  have run: "convert_literal_newlines w input_file output_file = Inr ?w'"
    using assms by (simp add: convert_literal_newlines_def Let_def)
  have out: "files ?w' output_file = Some ?text" by simp
  have rest: "\<forall>p. p \<noteq> output_file \<longrightarrow> files ?w' p = files w p" by simp
  have same: "CR \<notin> set raw \<longrightarrow> files ?w' output_file = Some (replace raw escaped_newline [LF])"
    by (simp add: universal_newlines_id)
  have first: "\<exists>w'. convert_literal_newlines w input_file output_file = Inr w'
       \<and> files w' output_file = Some ?text
       \<and> (\<forall>p. p \<noteq> output_file \<longrightarrow> files w' p = files w p)
       \<and> (CR \<notin> set raw \<longrightarrow>
            files w' output_file = Some (replace raw escaped_newline [LF]))"
    using run out rest same by blast
  have split: "replace (u @ escaped_newline @ v) escaped_newline [LF]
        = replace u escaped_newline [LF] @ [LF] @ replace v escaped_newline [LF]"
    unfolding replace_escape by (rule replace_scan_split)
  have none: "(\<forall>a b. s \<noteq> a @ escaped_newline @ b) \<longrightarrow> replace s escaped_newline [LF] = s"
    unfolding replace_escape using replace_scan_none [of s] by blast
  show ?thesis using first split none by blast
qed

theorem convert_writes_unescaped_text_witness:
  "files \<lparr>files = [''euk_nr.txt'' \<mapsto> ''>a_9606 t'' @ escaped_newline @ ''MK'' @ [LF]],
          unwritable = {}, stdout = [], stderr = []\<rparr> ''euk_nr.txt''
     = Some (''>a_9606 t'' @ escaped_newline @ ''MK'' @ [LF])
   \<and> ''euk_nr.faa'' \<notin> unwritable
        \<lparr>files = [''euk_nr.txt'' \<mapsto> ''>a_9606 t'' @ escaped_newline @ ''MK'' @ [LF]],
         unwritable = {}, stdout = [], stderr = []\<rparr>
   \<and> CR \<notin> set (''>a_9606 t'' @ escaped_newline @ ''MK'' @ [LF])
   \<and> (\<forall>a b. ''MK'' \<noteq> a @ escaped_newline @ b)
   \<and> (\<exists>w'. convert_literal_newlines
          \<lparr>files = [''euk_nr.txt'' \<mapsto> ''>a_9606 t'' @ escaped_newline @ ''MK'' @ [LF]],
           unwritable = {}, stdout = [], stderr = []\<rparr> ''euk_nr.txt'' ''euk_nr.faa'' = Inr w'
        \<and> files w' ''euk_nr.faa'' = Some (''>a_9606 t'' @ [LF] @ ''MK'' @ [LF]))
   \<and> replace ''MK'' escaped_newline [LF] = ''MK''"
proof -
  let ?raw = "''>a_9606 t'' @ escaped_newline @ ''MK'' @ [LF]"
  let ?w = "\<lparr>files = [''euk_nr.txt'' \<mapsto> ?raw], unwritable = {}, stdout = [], stderr = []\<rparr>"
  have p1: "files ?w ''euk_nr.txt'' = Some ?raw"
    by simp
  have p2: "''euk_nr.faa'' \<notin> unwritable ?w"
    by simp
  have p3: "CR \<notin> set ?raw"
    by simp
  have p4: "\<forall>a b. ''MK'' \<noteq> a @ escaped_newline @ b"
  proof (intro allI notI)
    fix a b assume "''MK'' = a @ escaped_newline @ b"
    then have "set ''MK'' = set (a @ escaped_newline @ b)" by (rule arg_cong)
    then show False by auto
  qed
  have e: "replace (universal_newlines ?raw) escaped_newline [LF]
           = ''>a_9606 t'' @ [LF] @ ''MK'' @ [LF]"
    by code_simp
  note inst = convert_writes_unescaped_text [OF p1 p2, where s = "''MK''"]
  from inst obtain w' where
    "convert_literal_newlines ?w ''euk_nr.txt'' ''euk_nr.faa'' = Inr w'"
    "files w' ''euk_nr.faa'' = Some (replace (universal_newlines ?raw) escaped_newline [LF])"
    by blast
  then have q1: "\<exists>w'. convert_literal_newlines ?w ''euk_nr.txt'' ''euk_nr.faa'' = Inr w'
        \<and> files w' ''euk_nr.faa'' = Some (''>a_9606 t'' @ [LF] @ ''MK'' @ [LF])"
    unfolding e by blast
  from inst p4 have q2: "replace ''MK'' escaped_newline [LF] = ''MK''"
    by blast
  show ?thesis using p1 p2 p3 p4 q1 q2 by blast
qed

text \<open>
  C9 as stated does not hold: a \<open>CR LF\<close> line ending of the intermediate file, which is
  no escaped newline, reaches the output as \<open>LF\<close>.
\<close>

theorem convert_changes_line_endings:
  "(case convert_literal_newlines
           \<lparr>files = [''euk_nr.txt'' \<mapsto> ''>a'' @ [CR, LF] @ ''MK''], unwritable = {},
            stdout = [], stderr = []\<rparr> ''euk_nr.txt'' ''euk_nr.faa''
    of Inl e \<Rightarrow> None | Inr w' \<Rightarrow> files w' ''euk_nr.faa'') = Some (''>a'' @ [LF] @ ''MK'')
   \<and> replace (''>a'' @ [CR, LF] @ ''MK'') escaped_newline [LF] = ''>a'' @ [CR, LF] @ ''MK''
   \<and> ''>a'' @ [LF] @ ''MK'' \<noteq> ''>a'' @ [CR, LF] @ ''MK''"
  by (simp add: convert_literal_newlines_def replace_def startswith_def)



end
